theory Spec2Isabelle
  imports Complex_Main "HOL-Library.Multiset" "HOL-Library.Sublist"
begin

section \<open>Configuration\<close>

text \<open>
  The module-level constants of \<^verbatim>\<open>py.py\<close>. Python strings that are not ASCII are
  kept as their UTF-8 bytes.
\<close>

definition input_file :: string where
  "input_file = ''data.csv''"

definition good_file :: string where
  "good_file = ''good.csv''"

definition bad_file :: string where
  "bad_file = ''bad.csv''"

definition http_timeout :: nat where
  "http_timeout = 10"

definition max_concurrency :: nat where
  "max_concurrency = 500"

definition request_delay :: rat where
  "request_delay = 1 / 10"

definition url_column :: string where
  \<comment> \<open>the column label used by \<^verbatim>\<open>process_row\<close> and \<^verbatim>\<open>process_csv\<close>, twelve UTF-8 bytes\<close>
  "url_column =
     [CHR 0xE5, CHR 0x8F, CHR 0x91, CHR 0xE5, CHR 0xB8, CHR 0x83,
      CHR 0xE9, CHR 0x93, CHR 0xBE, CHR 0xE6, CHR 0x8E, CHR 0xA5]"

definition missing_message :: string where
  \<comment> \<open>what \<^verbatim>\<open>process_csv\<close> prints when the column is not found\<close>
  "missing_message =
     [CHR 0xE6, CHR 0xB2, CHR 0xA1, CHR 0xE6, CHR 0x9C, CHR 0x89,
      CHR 0xE6, CHR 0x89, CHR 0xBE, CHR 0xE5, CHR 0x88, CHR 0xB0] @ url_column @
     [CHR 0xE5, CHR 0x88, CHR 0x97]"

definition done_message :: string where
  \<comment> \<open>what \<^verbatim>\<open>process_csv\<close> prints after writing both files\<close>
  "done_message =
     [CHR 0xE5, CHR 0xA4, CHR 0x84, CHR 0xE7, CHR 0x90, CHR 0x86,
      CHR 0xE5, CHR 0xAE, CHR 0x8C, CHR 0xE6, CHR 0xAF, CHR 0x95,
      CHR 0xEF, CHR 0xBC, CHR 0x8C, CHR 0xE7, CHR 0x94, CHR 0x9F,
      CHR 0xE6, CHR 0x88, CHR 0x90, CHR 0xE6, CHR 0x96, CHR 0x87,
      CHR 0xE4, CHR 0xBB, CHR 0xB6, CHR 0xEF, CHR 0xBC, CHR 0x9A] @
     good_file @ [CHR 0x20, CHR 0xE5, CHR 0x92, CHR 0x8C, CHR 0x20] @ bad_file"

section \<open>Data frames and rows\<close>

text \<open>
  A data frame is its column labels and its rows of cells. \<^verbatim>\<open>df.iterrows()\<close> yields,
  for each row position, the position and a series: the row's cells labelled by the
  columns, carrying the position as its name. A data frame is rectangular, so a row
  shorter than the header is filled with \<open>NaN\<close>, as the loader does.
\<close>

datatype cell = NaN | Text string

record series =
  name :: nat
  items :: "(string \<times> cell) list"

record dataframe =
  columns :: "string list"
  data :: "cell list list"

datatype exn =
  KeyError | InvalidURL | ClientConnectorError | ClientConnectorDNSError
  | TimeoutError | ClientError

definition fill :: "nat \<Rightarrow> cell list \<Rightarrow> cell list" where
  "fill n cells = take n (cells @ replicate n NaN)"

definition iterrows :: "dataframe \<Rightarrow> (nat \<times> series) list" where
  "iterrows df =
     map (\<lambda>(i, cells).
            (i, \<lparr>name = i, items = zip (columns df) (fill (length (columns df)) cells)\<rparr>))
         (enumerate 0 (data df))"

definition getitem :: "series \<Rightarrow> string \<Rightarrow> exn + cell" where
  \<comment> \<open>\<^verbatim>\<open>row[key]\<close>: a label that is not in the series raises\<close>
  "getitem row key = (case map_of (items row) key of None \<Rightarrow> Inl KeyError | Some v \<Rightarrow> Inr v)"

section \<open>One probe: \<^verbatim>\<open>check_url\<close>\<close>

text \<open>
  The HTTP client is the environment: \<^verbatim>\<open>session.get(url)\<close> either delivers a response
  with a status code or raises (a malformed URL, a DNS or connection failure, the
  session's total timeout, any other client error). The probe's result comes with the
  trace of what it did to the semaphore, the network and the clock. The program never
  cancels a task, so the sleep of the constant \<open>request_delay\<close> returns.
\<close>

datatype reply = Response int | Raises exn

datatype effect = SemAcquire | HttpGet cell | Sleep rat | SemRelease

fun try_body :: "cell \<Rightarrow> reply \<Rightarrow> (exn + bool) \<times> effect list" where
  "try_body url (Response status) =
     (Inr (200 \<le> status \<and> status < 300), [HttpGet url, Sleep request_delay])"
| "try_body url (Raises e) = (Inl e, [HttpGet url])"

fun bare_except :: "exn + bool \<Rightarrow> exn + bool" where
  "bare_except (Inl e) = Inr False"
| "bare_except (Inr b) = Inr b"

definition check_url :: "cell \<Rightarrow> reply \<Rightarrow> (exn + bool) \<times> effect list" where
  "check_url url r =
     (case try_body url r of
        (res, effs) \<Rightarrow> (bare_except res, [SemAcquire] @ effs @ [SemRelease]))"

section \<open>The batch: \<^verbatim>\<open>check_urls\<close>\<close>

text \<open>
  \<^verbatim>\<open>check_urls\<close> creates one \<^verbatim>\<open>process_row\<close> coroutine per row and gathers them. A
  coroutine runs until it awaits, so a task is observed at its suspension points only:
  not yet inside the semaphore, awaiting the response, awaiting the sleep, or done. The
  event loop and the network choose what happens next; a run is a list of their choices.
\<close>

datatype phase =
  Pending | Requesting cell | Sleeping cell int | Finished | Crashed exn

record state =
  tasks :: "(series \<times> phase) list"
  permits :: nat
  good_rows :: "series list"
  bad_rows :: "series list"
  issued :: "cell list"
  raised :: "exn option"

datatype event = Start nat | Reply nat reply | Wake nat

definition first_exn :: "exn option \<Rightarrow> exn \<Rightarrow> exn option" where
  \<comment> \<open>\<^verbatim>\<open>gather\<close> hands its awaiter the first exception raised\<close>
  "first_exn old e = (case old of None \<Rightarrow> Some e | Some e' \<Rightarrow> Some e')"

definition finish :: "nat \<Rightarrow> series \<Rightarrow> exn + bool \<Rightarrow> state \<Rightarrow> state" where
  \<comment> \<open>\<^verbatim>\<open>check_url\<close> leaves \<^verbatim>\<open>async with semaphore\<close> and \<^verbatim>\<open>process_row\<close> appends the row;
      no await lies in between\<close>
  "finish i row res st =
     (case res of
        Inl e \<Rightarrow>
          st\<lparr>tasks := (tasks st)[i := (row, Crashed e)], permits := permits st + 1,
             raised := first_exn (raised st) e\<rparr>
      | Inr is_valid \<Rightarrow>
          if is_valid then
            st\<lparr>tasks := (tasks st)[i := (row, Finished)], permits := permits st + 1,
               good_rows := good_rows st @ [row]\<rparr>
          else
            st\<lparr>tasks := (tasks st)[i := (row, Finished)], permits := permits st + 1,
               bad_rows := bad_rows st @ [row]\<rparr>)"

fun step :: "event \<Rightarrow> state \<Rightarrow> state option" where
  "step (Start i) st =
     (if i < length (tasks st) then
        (case tasks st ! i of
           (row, Pending) \<Rightarrow>
             (case getitem row url_column of
                Inl e \<Rightarrow>
                  Some (st\<lparr>tasks := (tasks st)[i := (row, Crashed e)],
                           raised := first_exn (raised st) e\<rparr>)
              | Inr url \<Rightarrow>
                  if 0 < permits st then
                    Some (st\<lparr>tasks := (tasks st)[i := (row, Requesting url)],
                             permits := permits st - 1,
                             issued := issued st @ [url]\<rparr>)
                  else None)
         | _ \<Rightarrow> None)
      else None)"
| "step (Reply i r) st =
     (if i < length (tasks st) then
        (case tasks st ! i of
           (row, Requesting url) \<Rightarrow>
             (case r of
                Response status \<Rightarrow>
                  Some (st\<lparr>tasks := (tasks st)[i := (row, Sleeping url status)]\<rparr>)
              | Raises e \<Rightarrow> Some (finish i row (fst (check_url url r)) st))
         | _ \<Rightarrow> None)
      else None)"
| "step (Wake i) st =
     (if i < length (tasks st) then
        (case tasks st ! i of
           (row, Sleeping url status) \<Rightarrow>
             Some (finish i row (fst (check_url url (Response status))) st)
         | _ \<Rightarrow> None)
      else None)"

fun exec :: "event list \<Rightarrow> state \<Rightarrow> state option" where
  "exec [] st = Some st"
| "exec (e # es) st = (case step e st of None \<Rightarrow> None | Some st' \<Rightarrow> exec es st')"

definition spawn :: "dataframe \<Rightarrow> nat \<Rightarrow> state" where
  \<comment> \<open>the state at \<^verbatim>\<open>asyncio.gather(*tasks)\<close>, with a semaphore of \<open>sem\<close> permits\<close>
  "spawn df sem =
     \<lparr>tasks = map (\<lambda>(_, row). (row, Pending)) (iterrows df), permits = sem,
      good_rows = [], bad_rows = [], issued = [], raised = None\<rparr>"

definition gather :: "state \<Rightarrow> (exn + unit) option" where
  \<comment> \<open>raises the first exception of a task; returns once every task is done; else waits\<close>
  "gather st =
     (case raised st of
        Some e \<Rightarrow> Some (Inl e)
      | None \<Rightarrow> if list_all (\<lambda>t. snd t = Finished) (tasks st) then Some (Inr ()) else None)"

definition check_urls ::
  "dataframe \<Rightarrow> nat \<Rightarrow> event list \<Rightarrow> ((exn + series list \<times> series list) \<times> cell list) option"
where
  \<comment> \<open>the result for the run \<open>es\<close>, with the requests issued; \<open>None\<close> when \<open>es\<close> is not
      a run of this input up to the return of \<^verbatim>\<open>gather\<close>\<close>
  "check_urls df sem es =
     (case exec es (spawn df sem) of
        None \<Rightarrow> None
      | Some st \<Rightarrow>
          (case gather st of
             None \<Rightarrow> None
           | Some (Inl e) \<Rightarrow> Some (Inl e, issued st)
           | Some (Inr _) \<Rightarrow> Some (Inr (good_rows st, bad_rows st), issued st)))"

section \<open>The run: \<^verbatim>\<open>process_csv\<close>\<close>

text \<open>
  The loaded data frame is the input; what the run prints, writes and requests, and
  how it returns, is the output.
\<close>

record run =
  returned :: "exn + unit"
  printed :: "string list"
  written :: "(string \<times> series list) list"
  requests :: "cell list"

definition process_csv :: "dataframe \<Rightarrow> event list \<Rightarrow> run option" where
  "process_csv df es =
     (if url_column \<notin> set (columns df) then
        Some \<lparr>returned = Inr (), printed = [missing_message], written = [], requests = []\<rparr>
      else
        (case check_urls df max_concurrency es of
           None \<Rightarrow> None
         | Some (Inl e, reqs) \<Rightarrow>
             Some \<lparr>returned = Inl e, printed = [], written = [], requests = reqs\<rparr>
         | Some (Inr (good, bad), reqs) \<Rightarrow>
             Some \<lparr>returned = Inr (), printed = [done_message],
                   written = [(good_file, good), (bad_file, bad)], requests = reqs\<rparr>))"

section \<open>Observations on states and runs\<close>

fun holds_permit :: "phase \<Rightarrow> bool" where
  "holds_permit (Requesting url) = True"
| "holds_permit (Sleeping url status) = True"
| "holds_permit p = False"

fun is_sleeping :: "phase \<Rightarrow> bool" where
  "is_sleeping (Sleeping url status) = True"
| "is_sleeping p = False"

definition in_flight :: "state \<Rightarrow> nat" where
  \<comment> \<open>the tasks inside \<^verbatim>\<open>async with semaphore\<close>\<close>
  "in_flight st = length (filter (\<lambda>t. holds_permit (snd t)) (tasks st))"

definition sleepers :: "state \<Rightarrow> nat" where
  "sleepers st = length (filter (\<lambda>t. is_sleeping (snd t)) (tasks st))"

definition done_rows :: "state \<Rightarrow> series list" where
  \<comment> \<open>the rows of the tasks that have appended their row\<close>
  "done_rows st = map fst (filter (\<lambda>t. snd t = Finished) (tasks st))"

fun completions :: "event list \<Rightarrow> nat list" where
  \<comment> \<open>the positions of the probes in the order in which they returned\<close>
  "completions [] = []"
| "completions (Start i # es) = completions es"
| "completions (Reply i (Response status) # es) = completions es"
| "completions (Reply i (Raises e) # es) = i # completions es"
| "completions (Wake i # es) = i # completions es"

section \<open>Sample inputs\<close>

definition sample_df :: dataframe where
  "sample_df =
     \<lparr>columns = [''id'', url_column],
      data = [[Text ''1'', Text ''http://a.example/''],
              [Text ''2'', Text ''http://b.example/''],
              [Text ''3'', Text ''http://c.example/'']]\<rparr>"

definition sample_row :: "nat \<Rightarrow> series" where
  "sample_row i = snd (iterrows sample_df ! i)"

definition sample_run :: "event list" where
  \<comment> \<open>two permits: the third probe starts once the first has returned\<close>
  "sample_run =
     [Start 0, Start 1, Reply 0 (Response 200), Reply 1 (Response 404), Wake 0,
      Start 2, Wake 1, Reply 2 (Raises TimeoutError)]"

definition swapped_run :: "event list" where
  \<comment> \<open>the second response arrives before the first\<close>
  "swapped_run =
     [Start 0, Start 1, Start 2, Reply 1 (Response 200), Reply 0 (Response 200),
      Reply 2 (Response 500), Wake 1, Wake 0, Wake 2]"

definition no_url_df :: dataframe where
  "no_url_df = \<lparr>columns = [''id'', ''link''], data = [[Text ''1'', Text ''http://a.example/'']]\<rparr>"

definition empty_df :: dataframe where
  "empty_df = \<lparr>columns = [''id'', url_column], data = []\<rparr>"

section \<open>Auxiliary facts\<close>

lemma mset_filter_update:
  assumes "i < length xs"
  shows "mset (filter P (xs[i := y])) + (if P (xs ! i) then {#xs ! i#} else {#})
           = mset (filter P xs) + (if P y then {#y#} else {#})"
proof -
  have upd: "xs[i := y] = take i xs @ y # drop (Suc i) xs"
    using assms by (rule upd_conv_take_nth_drop)
  have old: "xs = take i xs @ xs ! i # drop (Suc i) xs"
    using assms by (rule id_take_nth_drop)
  have "mset (filter P xs) = mset (filter P (take i xs @ xs ! i # drop (Suc i) xs))"
    using old by simp
  then show ?thesis
    unfolding upd by simp
qed

lemma length_filter_update:
  assumes "i < length xs"
  shows "length (filter P (xs[i := y])) + (if P (xs ! i) then 1 else 0)
           = length (filter P xs) + (if P y then 1 else 0)"
proof -
  have "size (mset (filter P (xs[i := y])) + (if P (xs ! i) then {#xs ! i#} else {#}))
          = size (mset (filter P xs) + (if P y then {#y#} else {#}))"
    using mset_filter_update [OF assms, of P y] by (rule arg_cong)
  then show ?thesis by (simp del: mset_filter split: if_splits)
qed

lemma step_cases [consumes 1, case_names crash start respond fail wake]:
  assumes "step e st = Some st'"
  obtains
    (crash) i row x where "e = Start i" "i < length (tasks st)"
      "tasks st ! i = (row, Pending)" "getitem row url_column = Inl x"
      "st' = st\<lparr>tasks := (tasks st)[i := (row, Crashed x)],
                 raised := first_exn (raised st) x\<rparr>"
  | (start) i row url where "e = Start i" "i < length (tasks st)"
      "tasks st ! i = (row, Pending)" "getitem row url_column = Inr url"
      "0 < permits st"
      "st' = st\<lparr>tasks := (tasks st)[i := (row, Requesting url)],
                 permits := permits st - 1, issued := issued st @ [url]\<rparr>"
  | (respond) i row url status where "e = Reply i (Response status)"
      "i < length (tasks st)" "tasks st ! i = (row, Requesting url)"
      "st' = st\<lparr>tasks := (tasks st)[i := (row, Sleeping url status)]\<rparr>"
  | (fail) i row url x where "e = Reply i (Raises x)"
      "i < length (tasks st)" "tasks st ! i = (row, Requesting url)"
      "st' = st\<lparr>tasks := (tasks st)[i := (row, Finished)],
                 permits := permits st + 1, bad_rows := bad_rows st @ [row]\<rparr>"
  | (wake) i row url status where "e = Wake i"
      "i < length (tasks st)" "tasks st ! i = (row, Sleeping url status)"
      "st' = (if 200 \<le> status \<and> status < 300
              then st\<lparr>tasks := (tasks st)[i := (row, Finished)],
                      permits := permits st + 1, good_rows := good_rows st @ [row]\<rparr>
              else st\<lparr>tasks := (tasks st)[i := (row, Finished)],
                      permits := permits st + 1, bad_rows := bad_rows st @ [row]\<rparr>)"
proof (cases e)
  case (Start i)
  with assms show ?thesis
    by (auto split: if_splits prod.splits phase.splits sum.splits intro: crash start)
next
  case (Reply i r)
  with assms show ?thesis
    by (cases r)
       (auto simp: finish_def check_url_def split: if_splits prod.splits phase.splits
             intro: respond fail)
next
  case (Wake i)
  with assms show ?thesis
    by (auto simp: finish_def check_url_def split: if_splits prod.splits phase.splits
             intro: wake)
qed

lemma in_flight_update:
  assumes "i < length (tasks st)" and "tasks st ! i = (row, p)"
  shows "length (filter (\<lambda>t. holds_permit (snd t)) ((tasks st)[i := (row, q)]))
           + (if holds_permit p then 1 else 0)
         = in_flight st + (if holds_permit q then 1 else 0)"
  using length_filter_update [OF assms(1), of "\<lambda>t. holds_permit (snd t)" "(row, q)"] assms(2)
  by (simp add: in_flight_def)

lemma step_permits:
  assumes "step e st = Some st'"
  shows "permits st' + in_flight st' = permits st + in_flight st"
  using assms
proof (cases rule: step_cases)
  case (crash i row x)
  then show ?thesis
    using in_flight_update [of i st row Pending "Crashed x"] by (simp add: in_flight_def)
next
  case (start i row url)
  then show ?thesis
    using in_flight_update [of i st row Pending "Requesting url"] by (simp add: in_flight_def)
next
  case (respond i row url status)
  then show ?thesis
    using in_flight_update [of i st row "Requesting url" "Sleeping url status"]
    by (simp add: in_flight_def)
next
  case (fail i row url x)
  then show ?thesis
    using in_flight_update [of i st row "Requesting url" Finished] by (simp add: in_flight_def)
next
  case (wake i row url status)
  then show ?thesis
    using in_flight_update [of i st row "Sleeping url status" Finished]
    by (simp add: in_flight_def)
qed

lemma exec_permits:
  "exec es st = Some st' \<Longrightarrow> permits st' + in_flight st' = permits st + in_flight st"
proof (induction es arbitrary: st)
  case Nil
  then show ?case by simp
next
  case (Cons e es)
  then obtain st1 where s: "step e st = Some st1" and r: "exec es st1 = Some st'"
    by (auto split: option.splits)
  from Cons.IH [OF r] step_permits [OF s] show ?case by simp
qed

lemma step_rows:
  assumes "step e st = Some st'"
  shows "map fst (tasks st') = map fst (tasks st)"
proof -
  have upd: "map fst ((tasks st)[i := (row, q)]) = map fst (tasks st)"
    if "i < length (tasks st)" and "tasks st ! i = (row, p)" for i row p q
  proof -
    have "(map fst (tasks st))[i := row] = map fst (tasks st)"
      using that by (intro list_update_same_conv [THEN iffD2]) simp_all
    then show ?thesis by (simp add: map_update)
  qed
  from assms show ?thesis
    by (cases rule: step_cases) (simp_all add: upd)
qed

lemma exec_rows:
  "exec es st = Some st' \<Longrightarrow> map fst (tasks st') = map fst (tasks st)"
proof (induction es arbitrary: st)
  case Nil
  then show ?case by simp
next
  case (Cons e es)
  then obtain st1 where s: "step e st = Some st1" and r: "exec es st1 = Some st'"
    by (auto split: option.splits)
  from Cons.IH [OF r] step_rows [OF s] show ?case by simp
qed

lemma done_update:
  assumes "i < length (tasks st)" and "tasks st ! i = (row, p)" and "p \<noteq> Finished"
  shows "mset (map fst (filter (\<lambda>t. snd t = Finished) ((tasks st)[i := (row, q)])))
         = mset (done_rows st) + (if q = Finished then {#row#} else {#})"
proof -
  have "image_mset fst (mset (filter (\<lambda>t. snd t = Finished) ((tasks st)[i := (row, q)]))
            + (if snd (tasks st ! i) = Finished then {#tasks st ! i#} else {#}))
        = image_mset fst (mset (filter (\<lambda>t. snd t = Finished) (tasks st))
            + (if snd (row, q) = Finished then {#(row, q)#} else {#}))"
    using mset_filter_update [OF assms(1), of "\<lambda>t. snd t = Finished" "(row, q)"]
    by (rule arg_cong)
  then show ?thesis
    using assms(2,3) by (simp add: done_rows_def del: mset_filter)
qed

lemma step_done:
  assumes "step e st = Some st'"
    and "mset (good_rows st) + mset (bad_rows st) = mset (done_rows st)"
  shows "mset (good_rows st') + mset (bad_rows st') = mset (done_rows st')"
  using assms(1)
proof (cases rule: step_cases)
  case (crash i row x)
  then show ?thesis
    using done_update [of i st row Pending "Crashed x"] assms(2) by (simp add: done_rows_def)
next
  case (start i row url)
  then show ?thesis
    using done_update [of i st row Pending "Requesting url"] assms(2)
    by (simp add: done_rows_def)
next
  case (respond i row url status)
  then show ?thesis
    using done_update [of i st row "Requesting url" "Sleeping url status"] assms(2)
    by (simp add: done_rows_def)
next
  case (fail i row url x)
  then show ?thesis
    using done_update [of i st row "Requesting url" Finished] assms(2)
    by (simp add: done_rows_def)
next
  case (wake i row url status)
  then show ?thesis
    using done_update [of i st row "Sleeping url status" Finished] assms(2)
    by (simp add: done_rows_def)
qed

lemma exec_done:
  "exec es st = Some st' \<Longrightarrow> mset (good_rows st) + mset (bad_rows st) = mset (done_rows st)
     \<Longrightarrow> mset (good_rows st') + mset (bad_rows st') = mset (done_rows st')"
proof (induction es arbitrary: st)
  case Nil
  then show ?case by simp
next
  case (Cons e es)
  then obtain st1 where s: "step e st = Some st1" and r: "exec es st1 = Some st'"
    by (auto split: option.splits)
  from Cons.IH [OF r step_done [OF s Cons.prems(2)]] show ?case .
qed

lemma names_iterrows: "map name (map snd (iterrows df)) = [0..<length (data df)]"
proof -
  have "map name (map snd (iterrows df)) = map fst (enumerate 0 (data df))"
    unfolding iterrows_def map_map by (rule map_cong) auto
  then show ?thesis by (simp add: map_fst_enumerate)
qed

lemma length_iterrows: "length (iterrows df) = length (data df)"
  by (simp add: iterrows_def)

lemma distinct_iterrows: "distinct (map snd (iterrows df))"
proof -
  have "distinct (map name (map snd (iterrows df)))"
    unfolding names_iterrows by simp
  then show ?thesis by (rule distinct_map [THEN iffD1, THEN conjunct1])
qed

lemma rows_spawn: "map fst (tasks (spawn df sem)) = map snd (iterrows df)"
  by (simp add: spawn_def case_prod_beta)

lemma in_flight_spawn: "in_flight (spawn df sem) = 0"
  by (simp add: in_flight_def spawn_def case_prod_beta)

lemma permits_spawn: "permits (spawn df sem) = sem"
  by (simp add: spawn_def)

lemma done_rows_spawn: "done_rows (spawn df sem) = []"
  by (simp add: done_rows_def spawn_def case_prod_beta)

lemma partitions_spawn: "good_rows (spawn df sem) = [] \<and> bad_rows (spawn df sem) = []"
  by (simp add: spawn_def)

lemma check_urls_returns:
  assumes "check_urls df sem es = Some (Inr (good, bad), reqs)"
  obtains st where "exec es (spawn df sem) = Some st" and "raised st = None"
    and "list_all (\<lambda>t. snd t = Finished) (tasks st)"
    and "good = good_rows st" and "bad = bad_rows st" and "reqs = issued st"
  using assms
  by (auto simp: check_urls_def gather_def split: option.splits sum.splits if_splits)

lemma done_rows_all:
  assumes "list_all (\<lambda>t. snd t = Finished) (tasks st)"
  shows "done_rows st = map fst (tasks st)"
proof -
  have "filter (\<lambda>t. snd t = Finished) (tasks st) = tasks st"
    using assms by (simp add: list_all_iff)
  then show ?thesis by (simp add: done_rows_def)
qed

lemma completions_Cons: "completions (e # es) = completions [e] @ completions es"
proof (cases e)
  case (Reply i r)
  then show ?thesis by (cases r) simp_all
qed simp_all

lemma names_nth:
  assumes "map name (map fst (tasks st)) = [0..<length (tasks st)]"
    and "i < length (tasks st)" and "tasks st ! i = (row, p)"
  shows "name row = i"
proof -
  have "map name (map fst (tasks st)) ! i = [0..<length (tasks st)] ! i"
    using assms(1) by simp
  then show ?thesis using assms(2,3) by simp
qed

lemma step_order:
  assumes "step e st = Some st'"
    and "map name (map fst (tasks st)) = [0..<length (tasks st)]"
  shows "\<exists>gs bs. good_rows st' = good_rows st @ gs \<and> bad_rows st' = bad_rows st @ bs
           \<and> subseq (map name gs) (completions [e]) \<and> subseq (map name bs) (completions [e])"
  using assms(1)
proof (cases rule: step_cases)
  case (crash i row x)
  then show ?thesis by simp
next
  case (start i row url)
  then show ?thesis by simp
next
  case (respond i row url status)
  then show ?thesis by simp
next
  case (fail i row url x)
  then have "name row = i" using names_nth [OF assms(2)] by simp
  with fail show ?thesis by simp
next
  case (wake i row url status)
  then have "name row = i" using names_nth [OF assms(2)] by simp
  with wake show ?thesis by simp
qed

lemma exec_order:
  "exec es st = Some st' \<Longrightarrow> map name (map fst (tasks st)) = [0..<length (tasks st)] \<Longrightarrow>
     \<exists>gs bs. good_rows st' = good_rows st @ gs \<and> bad_rows st' = bad_rows st @ bs
           \<and> subseq (map name gs) (completions es) \<and> subseq (map name bs) (completions es)"
proof (induction es arbitrary: st)
  case Nil
  then show ?case by simp
next
  case (Cons e es)
  then obtain st1 where s: "step e st = Some st1" and r: "exec es st1 = Some st'"
    by (auto split: option.splits)
  have n1: "map name (map fst (tasks st1)) = [0..<length (tasks st1)]"
  proof -
    have "map fst (tasks st1) = map fst (tasks st)" using s by (rule step_rows)
    moreover from this have "length (tasks st1) = length (tasks st)"
      by (rule map_eq_imp_length_eq)
    ultimately show ?thesis using Cons.prems(2) by simp
  qed
  from step_order [OF s Cons.prems(2)] obtain gs bs where
    a: "good_rows st1 = good_rows st @ gs" "bad_rows st1 = bad_rows st @ bs"
      "subseq (map name gs) (completions [e])" "subseq (map name bs) (completions [e])"
    by blast
  from Cons.IH [OF r n1] obtain gs' bs' where
    b: "good_rows st' = good_rows st1 @ gs'" "bad_rows st' = bad_rows st1 @ bs'"
      "subseq (map name gs') (completions es)" "subseq (map name bs') (completions es)"
    by blast
  have "subseq (map name (gs @ gs')) (completions (e # es))"
    unfolding completions_Cons [of e es] map_append
    using a(3) b(3) by (rule list_emb_append_mono)
  moreover have "subseq (map name (bs @ bs')) (completions (e # es))"
    unfolding completions_Cons [of e es] map_append
    using a(4) b(4) by (rule list_emb_append_mono)
  ultimately show ?case using a(1,2) b(1,2) by auto
qed

lemma names_spawn:
  "map name (map fst (tasks (spawn df sem))) = [0..<length (tasks (spawn df sem))]"
proof -
  have "length (tasks (spawn df sem)) = length (data df)"
    by (simp add: spawn_def length_iterrows)
  then show ?thesis by (simp add: rows_spawn names_iterrows del: map_map)
qed

lemma sorted_subseq:
  fixes xs ys :: "nat list"
  assumes "subseq xs ys" and "sorted ys"
  shows "sorted xs"
proof -
  from assms(1) obtain N where "xs = nths ys N" by (auto simp: subseq_conv_nths)
  with assms(2) show ?thesis by (simp add: sorted_nths)
qed

lemma length_fill: "length (fill n cells) = n"
  by (simp add: fill_def)

lemma getitem_iterrows:
  assumes "url_column \<in> set (columns df)" and "row \<in> set (map snd (iterrows df))"
  shows "\<exists>url. getitem row url_column = Inr url"
proof -
  from assms(2) obtain i cells where
    "row = \<lparr>name = i, items = zip (columns df) (fill (length (columns df)) cells)\<rparr>"
    by (auto simp: iterrows_def)
  moreover have "\<exists>v. map_of (zip (columns df) (fill (length (columns df)) cells)) url_column = Some v"
    using assms(1) map_of_zip_is_Some [of "columns df" "fill (length (columns df)) cells" url_column]
    by (simp add: length_fill)
  ultimately show ?thesis by (auto simp: getitem_def)
qed

lemma step_no_raise:
  assumes "step e st = Some st'" and "raised st = None"
    and "\<forall>row \<in> set (map fst (tasks st)). \<exists>url. getitem row url_column = Inr url"
  shows "raised st' = None"
  using assms(1)
proof (cases rule: step_cases)
  case (crash i row x)
  then have "row \<in> set (map fst (tasks st))"
    by (metis fst_conv in_set_conv_nth length_map nth_map)
  with assms(3) crash(4) show ?thesis by auto
next
  case (start i row url)
  with assms(2) show ?thesis by simp
next
  case (respond i row url status)
  with assms(2) show ?thesis by simp
next
  case (fail i row url x)
  with assms(2) show ?thesis by simp
next
  case (wake i row url status)
  with assms(2) show ?thesis by simp
qed

lemma exec_no_raise:
  "exec es st = Some st' \<Longrightarrow> raised st = None \<Longrightarrow>
     \<forall>row \<in> set (map fst (tasks st)). \<exists>url. getitem row url_column = Inr url \<Longrightarrow>
     raised st' = None"
proof (induction es arbitrary: st)
  case Nil
  then show ?case by simp
next
  case (Cons e es)
  then obtain st1 where s: "step e st = Some st1" and r: "exec es st1 = Some st'"
    by (auto split: option.splits)
  have "raised st1 = None"
    using s Cons.prems(2,3) by (rule step_no_raise)
  moreover have "\<forall>row \<in> set (map fst (tasks st1)). \<exists>url. getitem row url_column = Inr url"
    using Cons.prems(3) step_rows [OF s] by simp
  ultimately show ?case using Cons.IH [OF r] by blast
qed

lemma check_urls_no_KeyError:
  assumes "url_column \<in> set (columns df)"
  shows "check_urls df sem es \<noteq> Some (Inl e, reqs)"
proof
  assume c: "check_urls df sem es = Some (Inl e, reqs)"
  then obtain st where run: "exec es (spawn df sem) = Some st" and "raised st \<noteq> None"
    by (auto simp: check_urls_def gather_def split: option.splits sum.splits if_splits)
  moreover have "raised st = None"
    using run
  proof (rule exec_no_raise)
    show "raised (spawn df sem) = None" by (simp add: spawn_def)
    show "\<forall>row \<in> set (map fst (tasks (spawn df sem))). \<exists>url. getitem row url_column = Inr url"
      unfolding rows_spawn using getitem_iterrows [OF assms] by blast
  qed
  ultimately show False by simp
qed

lemma process_csv_returns:
  assumes "process_csv df es = Some r"
  shows "returned r = Inr ()"
proof (cases "url_column \<in> set (columns df)")
  case False
  with assms show ?thesis by (auto simp: process_csv_def)
next
  case True
  with assms check_urls_no_KeyError [OF True, of max_concurrency es] show ?thesis
    by (auto simp: process_csv_def split: option.splits sum.splits prod.splits)
qed

lemma step_no_tasks:
  assumes "tasks st = []"
  shows "step e st = None"
proof (cases e)
  case (Start i)
  with assms show ?thesis by simp
next
  case (Reply i r)
  with assms show ?thesis by simp
next
  case (Wake i)
  with assms show ?thesis by simp
qed

lemma exec_no_tasks:
  assumes "tasks st = []"
  shows "exec es st = (if es = [] then Some st else None)"
  using assms by (cases es) (simp_all add: step_no_tasks)

lemma spawn_empty:
  assumes "data df = []"
  shows "spawn df sem =
    \<lparr>tasks = [], permits = sem, good_rows = [], bad_rows = [], issued = [], raised = None\<rparr>"
  using assms by (simp add: spawn_def iterrows_def)

lemma sleepers_update:
  assumes "i < length (tasks st)" and "tasks st ! i = (row, p)"
  shows "length (filter (\<lambda>t. is_sleeping (snd t)) ((tasks st)[i := (row, q)]))
           + (if is_sleeping p then 1 else 0)
         = sleepers st + (if is_sleeping q then 1 else 0)"
  using length_filter_update [OF assms(1), of "\<lambda>t. is_sleeping (snd t)" "(row, q)"] assms(2)
  by (simp add: sleepers_def)

lemma sleepers_le_in_flight: "sleepers st \<le> in_flight st"
proof -
  have "length (filter (\<lambda>t. is_sleeping (snd t)) ts)
          \<le> length (filter (\<lambda>t. holds_permit (snd t)) ts)"
    for ts :: "(series \<times> phase) list"
  proof (induction ts)
    case Nil
    then show ?case by simp
  next
    case (Cons t ts)
    then show ?case by (cases "snd t") auto
  qed
  then show ?thesis by (simp add: sleepers_def in_flight_def)
qed

lemma step_reply_keeps_permit:
  assumes "step (Reply i (Response status)) st = Some st'"
  shows "permits st' = permits st \<and> sleepers st' = Suc (sleepers st)"
  using assms
proof (cases rule: step_cases)
  case (respond j row url status')
  then show ?thesis
    using sleepers_update [of j st row "Requesting url" "Sleeping url status'"]
    by (simp add: sleepers_def)
qed simp_all

lemma step_wake_releases:
  assumes "step (Wake i) st = Some st'"
  shows "permits st' = Suc (permits st) \<and> Suc (sleepers st') = sleepers st"
  using assms
proof (cases rule: step_cases)
  case (wake j row url status)
  then show ?thesis
    using sleepers_update [of j st row "Sleeping url status" Finished]
    by (simp add: sleepers_def split: if_splits)
qed simp_all

section \<open>Theorems about one probe\<close>

text \<open>
  C5. Whatever the HTTP request does (any response, any exception), \<^verbatim>\<open>check_url\<close>
  returns a Boolean outcome to its caller: the result is never a propagated exception.
\<close>

theorem check_url_never_raises:
  "\<exists>b. fst (check_url url r) = Inr b"
  by (cases r) (auto simp: check_url_def)

text \<open>
  C4. The outcome of a probe is \<open>True\<close> exactly when the request delivered a response
  whose status code \<open>s\<close> satisfies \<open>200 \<le> s < 300\<close>: a response with any other status
  gives \<open>False\<close>, and so does every exception of the request (malformed URL, DNS or
  connection failure, timeout, any other client error).
\<close>

theorem check_url_classification:
  "fst (check_url url r) = Inr (\<exists>status. r = Response status \<and> 200 \<le> status \<and> status < 300)
   \<and> fst (check_url url (Response status)) = Inr (200 \<le> status \<and> status < 300)
   \<and> fst (check_url url (Raises e)) = Inr False"
  by (cases r) (simp_all add: check_url_def)

text \<open>
  C6. A probe sleeps exactly when a response was received, whatever its status: after a
  response its trace is acquire, request, sleep of \<open>request_delay\<close>, release; after an
  exception of the request it is acquire, request, release, with no sleep.
\<close>

theorem delay_only_after_response:
  "(\<exists>d. Sleep d \<in> set (snd (check_url url r))) = (\<exists>status. r = Response status)
   \<and> snd (check_url url (Response status)) =
       [SemAcquire, HttpGet url, Sleep request_delay, SemRelease]
   \<and> snd (check_url url (Raises e)) = [SemAcquire, HttpGet url, SemRelease]"
  by (cases r) (auto simp: check_url_def)

section \<open>Theorems about the batch\<close>

text \<open>
  C1. For every input and every run of the probes, once \<^verbatim>\<open>check_urls\<close> has returned,
  the two lists together hold exactly the input rows: as multisets \<open>good\<close> plus \<open>bad\<close>
  is the input, no row occurs twice, every input row is in exactly one of the two
  lists, and the two lengths add up to the number of input rows.
\<close>

theorem check_urls_partitions_input:
  assumes "check_urls df sem es = Some (Inr (good, bad), reqs)"
  shows "mset good + mset bad = mset (map snd (iterrows df))
       \<and> distinct (good @ bad)
       \<and> (\<forall>row \<in> set (map snd (iterrows df)). (row \<in> set good) \<noteq> (row \<in> set bad))
       \<and> length good + length bad = length (data df)"
proof -
  from assms obtain st where run: "exec es (spawn df sem) = Some st"
    and fin: "list_all (\<lambda>t. snd t = Finished) (tasks st)"
    and g: "good = good_rows st" and b: "bad = bad_rows st"
    by (rule check_urls_returns)
  have "mset (good_rows st) + mset (bad_rows st) = mset (done_rows st)"
    using run by (rule exec_done) (simp add: partitions_spawn done_rows_spawn)
  also have "done_rows st = map fst (tasks st)"
    using fin by (rule done_rows_all)
  also have "map fst (tasks st) = map snd (iterrows df)"
    using exec_rows [OF run] by (simp add: rows_spawn)
  finally have m: "mset (good @ bad) = mset (map snd (iterrows df))"
    by (simp add: g b)
  have d: "distinct (good @ bad)"
    using mset_eq_imp_distinct_iff [OF m] distinct_iterrows by simp
  have s: "set good \<union> set bad = set (map snd (iterrows df))"
    using mset_eq_setD [OF m] by simp
  have "size (mset (good @ bad)) = size (mset (map snd (iterrows df)))"
    using m by (rule arg_cong)
  then have l: "length good + length bad = length (data df)"
    by (simp add: length_iterrows)
  from d have "set good \<inter> set bad = {}" by simp
  with s have "\<forall>row \<in> set (map snd (iterrows df)). (row \<in> set good) \<noteq> (row \<in> set bad)"
    by blast
  with m d l show ?thesis by simp
qed

theorem check_urls_partitions_input_witness:
  "check_urls sample_df 2 sample_run =
     Some (Inr ([sample_row 0], [sample_row 1, sample_row 2]),
           [Text ''http://a.example/'', Text ''http://b.example/'', Text ''http://c.example/''])
   \<and> mset [sample_row 0] + mset [sample_row 1, sample_row 2] = mset (map snd (iterrows sample_df))
   \<and> distinct ([sample_row 0] @ [sample_row 1, sample_row 2])
   \<and> length [sample_row 0] + length [sample_row 1, sample_row 2] = length (data sample_df)"
proof -
  have h: "check_urls sample_df 2 sample_run =
     Some (Inr ([sample_row 0], [sample_row 1, sample_row 2]),
           [Text ''http://a.example/'', Text ''http://b.example/'', Text ''http://c.example/''])"
    by code_simp
  from check_urls_partitions_input [OF h] show ?thesis
    using h by simp
qed

text \<open>
  C3. At every point of a run (after any prefix \<open>es\<close> of the events), the number of
  probes inside \<^verbatim>\<open>async with semaphore\<close> is at most the number of permits the
  semaphore was created with; every permit that is not free is held by such a probe, so
  a probe that has returned, by a response or by an exception, has given its permit
  back; and the last thing \<^verbatim>\<open>check_url\<close> does, whatever the request did, is to release.
\<close>

theorem permits_never_exceeded:
  assumes "exec es (spawn df sem) = Some st"
  shows "in_flight st \<le> sem \<and> permits st + in_flight st = sem
       \<and> last (snd (check_url url r)) = SemRelease"
proof -
  have "permits st + in_flight st = sem"
    using exec_permits [OF assms] by (simp add: in_flight_spawn permits_spawn)
  moreover have "last (snd (check_url url r)) = SemRelease"
    by (cases r) (simp_all add: check_url_def)
  ultimately show ?thesis by simp
qed

theorem permits_never_exceeded_witness:
  "\<exists>st. exec [Start 0, Start 1] (spawn sample_df 2) = Some st
      \<and> in_flight st \<le> 2 \<and> permits st + in_flight st = 2
      \<and> last (snd (check_url NaN (Raises TimeoutError))) = SemRelease"
proof -
  have "exec [Start 0, Start 1] (spawn sample_df 2) \<noteq> None"
    by code_simp
  then obtain st where h: "exec [Start 0, Start 1] (spawn sample_df 2) = Some st"
    by blast
  from permits_never_exceeded [OF h, of NaN "Raises TimeoutError"] h show ?thesis
    by blast
qed

text \<open>
  C2, as stated, fails: the lists are appended to as the probes return. With three
  permits and the second response arriving before the first, the rows at positions 0
  and 1 both pass and \<open>good_rows\<close> holds them as position 1, then position 0.
\<close>

theorem reordered_counterexample:
  "check_urls sample_df 3 swapped_run =
     Some (Inr ([sample_row 1, sample_row 0], [sample_row 2]),
           [Text ''http://a.example/'', Text ''http://b.example/'', Text ''http://c.example/''])
   \<and> map name (map snd (iterrows sample_df)) = [0, 1, 2]
   \<and> map name [sample_row 1, sample_row 0] = [1, 0]
   \<and> \<not> sorted (map name [sample_row 1, sample_row 0])"
  by code_simp

text \<open>
  C2, amended. The rows within each returned list appear in the order in which their
  probes returned: the positions of each list are a subsequence of the completion
  order of the run. So both lists are in input order whenever the probes return in
  input order.
\<close>

theorem partitions_in_completion_order:
  assumes "check_urls df sem es = Some (Inr (good, bad), reqs)"
  shows "subseq (map name good) (completions es) \<and> subseq (map name bad) (completions es)
       \<and> (sorted (completions es) \<longrightarrow> sorted (map name good) \<and> sorted (map name bad))"
proof -
  from assms obtain st where run: "exec es (spawn df sem) = Some st"
    and g: "good = good_rows st" and b: "bad = bad_rows st"
    by (rule check_urls_returns)
  from exec_order [OF run names_spawn]
  have s: "subseq (map name good) (completions es)" "subseq (map name bad) (completions es)"
    by (simp_all add: g b partitions_spawn)
  then show ?thesis by (auto intro: sorted_subseq)
qed

theorem partitions_in_completion_order_witness:
  "check_urls sample_df 2 sample_run =
     Some (Inr ([sample_row 0], [sample_row 1, sample_row 2]),
           [Text ''http://a.example/'', Text ''http://b.example/'', Text ''http://c.example/''])
   \<and> completions sample_run = [0, 1, 2]
   \<and> subseq (map name [sample_row 0]) (completions sample_run)
   \<and> subseq (map name [sample_row 1, sample_row 2]) (completions sample_run)
   \<and> sorted (map name [sample_row 0])
   \<and> sorted (map name [sample_row 1, sample_row 2])"
proof -
  have h: "check_urls sample_df 2 sample_run =
     Some (Inr ([sample_row 0], [sample_row 1, sample_row 2]),
           [Text ''http://a.example/'', Text ''http://b.example/'', Text ''http://c.example/''])"
    by code_simp
  have c: "completions sample_run = [0, 1, 2]"
    by code_simp
  have s: "sorted (completions sample_run)"
    unfolding c by simp
  from partitions_in_completion_order [OF h] s
  have "subseq (map name [sample_row 0]) (completions sample_run)
      \<and> subseq (map name [sample_row 1, sample_row 2]) (completions sample_run)
      \<and> sorted (map name [sample_row 0])
      \<and> sorted (map name [sample_row 1, sample_row 2])"
    by blast
  with h c show ?thesis
    by blast
qed

text \<open>
  C9. A probe that has received a response keeps its permit while it sleeps: receiving
  the response leaves the free permits as they were and makes the task a sleeper, only
  the end of the sleep gives the permit back, and in \<^verbatim>\<open>check_url\<close>'s trace the release
  comes after the sleep. So at every point of a run the sleeping tasks and the free
  permits together are at most the semaphore's capacity: a task that merely waits out
  the delay counts against it.
\<close>

theorem permit_held_during_delay:
  assumes "exec es (spawn df sem) = Some st"
  shows "permits st + sleepers st \<le> sem
       \<and> (\<forall>i status st'. step (Reply i (Response status)) st = Some st' \<longrightarrow>
             permits st' = permits st \<and> sleepers st' = Suc (sleepers st))
       \<and> (\<forall>i st'. step (Wake i) st = Some st' \<longrightarrow>
             permits st' = Suc (permits st) \<and> Suc (sleepers st') = sleepers st)
       \<and> snd (check_url url (Response s)) =
            [SemAcquire, HttpGet url, Sleep request_delay, SemRelease]"
proof -
  have "permits st + in_flight st = sem"
    using exec_permits [OF assms] by (simp add: in_flight_spawn permits_spawn)
  then have "permits st + sleepers st \<le> sem"
    using sleepers_le_in_flight [of st] by simp
  moreover have "snd (check_url url (Response s)) =
      [SemAcquire, HttpGet url, Sleep request_delay, SemRelease]"
    by (simp add: check_url_def)
  ultimately show ?thesis
    using step_reply_keeps_permit step_wake_releases by blast
qed

theorem permit_held_during_delay_witness:
  "\<exists>st st1 st2. exec [Start 0, Start 1, Reply 0 (Response 200)] (spawn sample_df 2) = Some st
      \<and> permits st + sleepers st \<le> 2
      \<and> step (Start 2) st = None
      \<and> step (Reply 1 (Response 404)) st = Some st1
      \<and> permits st1 = permits st \<and> sleepers st1 = Suc (sleepers st)
      \<and> step (Wake 0) st = Some st2
      \<and> permits st2 = Suc (permits st) \<and> Suc (sleepers st2) = sleepers st"
proof -
  have "case exec [Start 0, Start 1, Reply 0 (Response 200)] (spawn sample_df 2) of
          None \<Rightarrow> False
        | Some st \<Rightarrow> step (Start 2) st = None \<and> step (Reply 1 (Response 404)) st \<noteq> None
                      \<and> step (Wake 0) st \<noteq> None"
    by code_simp
  then obtain st st1 st2 where
    h: "exec [Start 0, Start 1, Reply 0 (Response 200)] (spawn sample_df 2) = Some st"
    and b: "step (Start 2) st = None"
    and r: "step (Reply 1 (Response 404)) st = Some st1"
    and w: "step (Wake 0) st = Some st2"
    by (auto split: option.splits)
  from permit_held_during_delay [OF h, of NaN 200] r w
  have "permits st + sleepers st \<le> 2
      \<and> permits st1 = permits st \<and> sleepers st1 = Suc (sleepers st)
      \<and> permits st2 = Suc (permits st) \<and> Suc (sleepers st2) = sleepers st"
    by blast
  with h b r w show ?thesis
    by blast
qed

section \<open>Theorems about the run\<close>

text \<open>
  C7. When the URL column is not among the columns of the input, the run stops before
  any task exists: whatever the event loop and the network would do, no request is
  issued and no file is written, neither the passed one nor the failed one.
\<close>

theorem missing_column_aborts:
  assumes "url_column \<notin> set (columns df)"
  shows "process_csv df es =
           Some \<lparr>returned = Inr (), printed = [missing_message], written = [], requests = []\<rparr>"
  using assms by (simp add: process_csv_def)

theorem missing_column_aborts_witness:
  "url_column \<notin> set (columns no_url_df)
   \<and> process_csv no_url_df [Start 0, Reply 0 (Response 200), Wake 0] =
       Some \<lparr>returned = Inr (), printed = [missing_message], written = [], requests = []\<rparr>"
proof -
  have h: "url_column \<notin> set (columns no_url_df)"
    by code_simp
  from missing_column_aborts [OF h] h show ?thesis
    by simp
qed

text \<open>
  C10. When the URL column is missing, \<^verbatim>\<open>process_csv\<close> prints its message and returns
  normally: it raises nothing, and its return value is the one every completed call
  returns, so the caller cannot tell the missing column from success.
\<close>

theorem missing_column_returns_normally:
  assumes "url_column \<notin> set (columns df)"
  shows "\<exists>r. process_csv df es = Some r \<and> returned r = Inr () \<and> printed r = [missing_message]
           \<and> (\<forall>df' es' r'. process_csv df' es' = Some r' \<longrightarrow> returned r' = returned r)"
proof -
  let ?r = "\<lparr>returned = Inr (), printed = [missing_message], written = [], requests = []\<rparr>"
  have "process_csv df es = Some ?r"
    using assms by (simp add: process_csv_def)
  moreover have "\<forall>df' es' r'. process_csv df' es' = Some r' \<longrightarrow> returned r' = returned ?r"
    by (simp add: process_csv_returns)
  ultimately show ?thesis by (intro exI [of _ ?r]) simp
qed

theorem missing_column_returns_normally_witness:
  "url_column \<notin> set (columns no_url_df)
   \<and> (\<exists>r r'. process_csv no_url_df [] = Some r \<and> returned r = Inr ()
         \<and> printed r = [missing_message]
         \<and> process_csv sample_df sample_run = Some r' \<and> returned r' = returned r)"
proof -
  have h: "url_column \<notin> set (columns no_url_df)"
    by code_simp
  have "process_csv sample_df sample_run \<noteq> None"
    by code_simp
  then obtain r' where s: "process_csv sample_df sample_run = Some r'"
    by blast
  from missing_column_returns_normally [OF h, of "[]"] h s show ?thesis
    by blast
qed

text \<open>
  C8. For an input with the URL column and no rows, the run completes without error:
  \<^verbatim>\<open>check_urls\<close> returns two empty lists at once, no request is issued, both files are
  written with no rows, and \<^verbatim>\<open>process_csv\<close> returns normally. The empty run is the only
  run of such an input.
\<close>

theorem empty_input_completes:
  assumes "url_column \<in> set (columns df)" and "data df = []"
  shows "check_urls df sem [] = Some (Inr ([], []), [])
       \<and> process_csv df [] =
           Some \<lparr>returned = Inr (), printed = [done_message],
                 written = [(good_file, []), (bad_file, [])], requests = []\<rparr>
       \<and> process_csv df es =
           (if es = [] then
              Some \<lparr>returned = Inr (), printed = [done_message],
                    written = [(good_file, []), (bad_file, [])], requests = []\<rparr>
            else None)"
proof -
  have c: "check_urls df n es' = (if es' = [] then Some (Inr ([], []), []) else None)" for n es'
    using exec_no_tasks [of "spawn df n" es'] spawn_empty [OF assms(2), of n]
    by (simp add: check_urls_def gather_def)
  show ?thesis
    using assms(1) by (simp add: c process_csv_def)
qed

theorem empty_input_completes_witness:
  "url_column \<in> set (columns empty_df) \<and> data empty_df = []
   \<and> check_urls empty_df max_concurrency [] = Some (Inr ([], []), [])
   \<and> process_csv empty_df [] =
        Some \<lparr>returned = Inr (), printed = [done_message],
              written = [(good_file, []), (bad_file, [])], requests = []\<rparr>"
proof -
  have h1: "url_column \<in> set (columns empty_df)"
    by code_simp
  have h2: "data empty_df = []"
    by (simp add: empty_df_def)
  from empty_input_completes [OF h1 h2, of max_concurrency "[]"] h1 h2 show ?thesis
    by blast
qed

end
